theory Spec2Isabelle
  imports Complex_Main "HOL-Library.Word" "HOL-Library.Signed_Division" "HOL-Library.Log_Nat"
begin

section \<open>The \<open>double\<close> arithmetic of the program\<close>

text \<open>
  Costs, defense points and the budget are C++ \<open>double\<close>s: IEEE 754 binary64 numbers. A
  \<open>double\<close> is a NaN, an infinity with its sign (\<open>True\<close> for minus), or a finite number
  with its sign and magnitude; a finite magnitude is a multiple of \<open>2^-1074\<close> with at most
  53 significant bits below \<open>2^1024\<close>, which the operations below produce.
\<close>

datatype double = NaN | Infinity bool | Finite bool rat

definition is_nan :: "double \<Rightarrow> bool" where
  "is_nan x = (case x of NaN \<Rightarrow> True | _ \<Rightarrow> False)"


text \<open>
  Comparisons: a NaN compares false with everything; minus infinity is below, plus infinity
  above every finite number; finite numbers compare by value, so \<open>-0.0\<close> equals \<open>0.0\<close>.
\<close>

definition rank :: "double \<Rightarrow> int" where
  "rank x = (case x of NaN \<Rightarrow> 2 | Infinity s \<Rightarrow> (if s then - 1 else 1) | Finite s m \<Rightarrow> 0)"

definition fval :: "double \<Rightarrow> rat" where
  "fval x = (case x of Finite s m \<Rightarrow> (if s then - m else m) | _ \<Rightarrow> 0)"

definition flt :: "double \<Rightarrow> double \<Rightarrow> bool" where
  "flt x y \<longleftrightarrow> \<not> is_nan x \<and> \<not> is_nan y \<and>
     (rank x < rank y \<or> (rank x = rank y \<and> fval x < fval y))"

definition fle :: "double \<Rightarrow> double \<Rightarrow> bool" where
  "fle x y \<longleftrightarrow> \<not> is_nan x \<and> \<not> is_nan y \<and>
     (rank x < rank y \<or> (rank x = rank y \<and> fval x \<le> fval y))"

definition fgt :: "double \<Rightarrow> double \<Rightarrow> bool" where
  "fgt x y = flt y x"

text \<open>
  Rounding to nearest, ties to even, of a positive rational \<open>r\<close>: with \<open>e\<close> the exponent of
  \<open>r\<close> (at least \<open>-1022\<close>, where the subnormal numbers begin), the result is the multiple of
  \<open>2^(e - 52)\<close> nearest to \<open>r\<close>. It is \<open>n * 2^(e - 52)\<close> with \<open>n \<le> 2^53\<close>, so it reaches
  \<open>2^1024\<close>, and overflows to infinity, exactly when \<open>e \<ge> 1024\<close>, or \<open>e = 1023\<close> and
  \<open>n = 2^53\<close>.
\<close>

definition floor_log2 :: "rat \<Rightarrow> int" where
  "floor_log2 r =
     (let (p, q) = quotient_of r; d = bitlen p - bitlen q
      in if 2 powi d \<le> r then d else d - 1)"

definition round_half_even :: "rat \<Rightarrow> int" where
  "round_half_even m =
     (let f = \<lfloor>m\<rfloor>; d = m - of_int f
      in if d < 1 / 2 then f
         else if 1 / 2 < d then f + 1
         else if even f then f else f + 1)"

definition round64 :: "bool \<Rightarrow> rat \<Rightarrow> double" where
  "round64 s r =
     (let e = max (floor_log2 r) (- 1022);
          q = 2 powi (e - 52);
          n = round_half_even (r / q)
      in if 1024 \<le> e \<or> (e = 1023 \<and> n = 2 ^ 53) then Infinity s
         else Finite s (of_int n * q))"

text \<open>The \<open>double\<close> nearest to a rational: what a literal such as \<open>-1.0\<close> or \<open>0.1\<close> denotes.\<close>

definition dbl :: "rat \<Rightarrow> double" where
  "dbl r = (if r = 0 then Finite False 0 else round64 (r < 0) \<bar>r\<bar>)"

text \<open>
  \<open>x + y\<close>: the exact sum, rounded. An exact sum of zero is \<open>-0.0\<close> only when both operands
  are negative (zeros); infinities of opposite sign add to a NaN.
\<close>

definition fadd :: "double \<Rightarrow> double \<Rightarrow> double" where
  "fadd x y =
     (case (x, y) of
        (NaN, _) \<Rightarrow> NaN
      | (_, NaN) \<Rightarrow> NaN
      | (Infinity s, Infinity t) \<Rightarrow> (if s = t then Infinity s else NaN)
      | (Infinity s, Finite t k) \<Rightarrow> Infinity s
      | (Finite s m, Infinity t) \<Rightarrow> Infinity t
      | (Finite s m, Finite t k) \<Rightarrow>
          (let r = fval x + fval y
           in if r = 0 then Finite (s \<and> t) 0 else round64 (r < 0) \<bar>r\<bar>))"

text \<open>
  \<open>x / y\<close>: the exact quotient, rounded; the sign is the exclusive or of the signs. A
  nonzero number divided by zero is an infinity; \<open>0 / 0\<close> and \<open>inf / inf\<close> are NaN.
\<close>

definition fdiv :: "double \<Rightarrow> double \<Rightarrow> double" where
  "fdiv x y =
     (case (x, y) of
        (NaN, _) \<Rightarrow> NaN
      | (_, NaN) \<Rightarrow> NaN
      | (Infinity s, Infinity t) \<Rightarrow> NaN
      | (Infinity s, Finite t k) \<Rightarrow> Infinity (s \<noteq> t)
      | (Finite s m, Infinity t) \<Rightarrow> Finite (s \<noteq> t) 0
      | (Finite s m, Finite t k) \<Rightarrow>
          (if k = 0 then (if m = 0 then NaN else Infinity (s \<noteq> t))
           else if m = 0 then Finite (s \<noteq> t) 0
           else round64 (s \<noteq> t) (m / k)))"

section \<open>Data model of maxtime.hh\<close>

text \<open>
  An \<open>ArmorItem\<close> carries a description, a cost in gold and defense points, both
  \<open>double\<close>s. An \<open>ArmorVector\<close> is a vector of (shared pointers to) items; the model
  keeps the items themselves, in vector order.
\<close>

record ArmorItem =
  description :: string
  cost :: double
  defense :: double

type_synonym ArmorVector = "ArmorItem list"

text \<open>
  The ways a call can fail to return a vector: the \<open>assert\<close> at the head of
  \<open>exhaustive_max_defense\<close>, and a read of a \<open>std::string\<close> beyond its end, which
  C++ leaves undefined.
\<close>

datatype error = Assertion_failed | Out_of_range

text \<open>
  The value an integer takes when it is stored in a C++ \<open>int\<close> (32 bits, two's
  complement, wrapping).
\<close>

definition to_int :: "int \<Rightarrow> int" where
  "to_int k = sint (word_of_int k :: 32 word)"

text \<open>
  \<open>sum_armor_vector\<close>: both totals start at 0 and every item is added in turn, in
  \<open>double\<close> arithmetic and in the order of the vector.
\<close>

definition sum_armor_vector :: "ArmorVector \<Rightarrow> double \<times> double" where
  "sum_armor_vector armors =
     fold (\<lambda>armor (total_cost, total_defense).
             (fadd total_cost (cost armor), fadd total_defense (defense armor))) armors
       (dbl 0, dbl 0)"

section \<open>\<open>get_binary\<close>\<close>

text \<open>
  The \<open>while (num != 0)\<close> loop: \<open>rem = num % 2\<close> and \<open>num /= 2\<close> are C++'s truncating
  operations (\<open>smod\<close>, \<open>sdiv\<close>); the character appended is \<open>'0' + rem\<close>. Halving
  cannot overflow, so \<open>num\<close> ranges over the values of an \<open>int\<close> without wrapping.
\<close>

function binary_digits :: "int \<Rightarrow> string \<Rightarrow> string" where
  "binary_digits num bin_str =
     (if num \<noteq> 0
      then (let rem = num smod 2
            in binary_digits (num sdiv 2) (bin_str @ [char_of (of_char CHR ''0'' + rem)]))
      else bin_str)"
  by pat_completeness auto
termination
  by (relation "measure (\<lambda>(num, bin_str). nat \<bar>num\<bar>)")
     (auto simp: signed_divide_int_def abs_mult)

text \<open>\<open>for (int i = sz; i < len; i++) bin_str += '0'\<close>\<close>

function fix_length :: "int \<Rightarrow> int \<Rightarrow> string \<Rightarrow> string" where
  "fix_length i len bin_str =
     (if i < len then fix_length (i + 1) len (bin_str @ [CHR ''0'']) else bin_str)"
  by pat_completeness auto
termination
  by (relation "measure (\<lambda>(i, len, bin_str). nat (len - i))") auto

text \<open>
  \<open>std::swap(bin_str[i], bin_str[len - 1 - i])\<close> and the loop around it,
  \<open>for (int i = 0; i < len / 2; i++)\<close>. Both positions are below \<open>len\<close>, and the
  string has at least \<open>len\<close> characters once its length is fixed.
\<close>

definition swap_chars :: "nat \<Rightarrow> nat \<Rightarrow> string \<Rightarrow> string" where
  "swap_chars i j bin_str = bin_str[i := bin_str ! j, j := bin_str ! i]"

function fix_reverse :: "int \<Rightarrow> int \<Rightarrow> string \<Rightarrow> string" where
  "fix_reverse i len bin_str =
     (if i < len sdiv 2
      then fix_reverse (i + 1) len (swap_chars (nat i) (nat (len - 1 - i)) bin_str)
      else bin_str)"
  by pat_completeness auto
termination
  by (relation "measure (\<lambda>(i, len, bin_str). nat (len sdiv 2 - i))") auto

definition get_binary :: "int \<Rightarrow> int \<Rightarrow> string" where
  "get_binary num len =
     (let bin_str = binary_digits num [];
          sz = int (length bin_str);
          bin_str = fix_length sz len bin_str
      in fix_reverse 0 len bin_str)"

section \<open>\<open>greedy_max_defense\<close>\<close>

text \<open>
  The inner range-for over \<open>source\<close>: \<open>loop_pos\<close> counts the items seen, the first item
  sets \<open>max_ratio\<close>, and a later one replaces it only when its ratio is strictly greater.
\<close>

fun choose_best :: "ArmorVector \<Rightarrow> nat \<Rightarrow> double \<Rightarrow> nat \<Rightarrow> nat" where
  "choose_best [] loop_pos max_ratio optimal_choice_pos = optimal_choice_pos"
| "choose_best (armor # rest) loop_pos max_ratio optimal_choice_pos =
     (if loop_pos = 0
      then choose_best rest (loop_pos + 1) (fdiv (defense armor) (cost armor)) loop_pos
      else (let cur_ratio = fdiv (defense armor) (cost armor)
            in if fgt cur_ratio max_ratio
               then choose_best rest (loop_pos + 1) cur_ratio loop_pos
               else choose_best rest (loop_pos + 1) max_ratio optimal_choice_pos))"

text \<open>\<open>source.erase(source.begin() + pos)\<close>\<close>

definition erase :: "'a list \<Rightarrow> nat \<Rightarrow> 'a list" where
  "erase source pos = take pos source @ drop (Suc pos) source"

lemma choose_best_less:
  "optimal_choice_pos < loop_pos + length source \<Longrightarrow>
   choose_best source loop_pos max_ratio optimal_choice_pos < loop_pos + length source"
  by (induction source loop_pos max_ratio optimal_choice_pos rule: choose_best.induct)
     (auto simp: Let_def)

text \<open>The \<open>while (!source.empty())\<close> loop, with \<open>current_cost\<close> and \<open>output\<close> as its state.\<close>

function greedy_loop ::
  "ArmorVector \<Rightarrow> double \<Rightarrow> double \<Rightarrow> ArmorVector \<Rightarrow> ArmorVector" where
  "greedy_loop source total_cost current_cost output =
     (if source \<noteq> []
      then (let optimal_choice_pos = choose_best source 0 (dbl 0) 0;
                chosen = source ! optimal_choice_pos
            in if fle (fadd current_cost (cost chosen)) total_cost
               then greedy_loop (erase source optimal_choice_pos) total_cost
                      (fadd current_cost (cost chosen)) (output @ [chosen])
               else greedy_loop (erase source optimal_choice_pos) total_cost
                      current_cost output)
      else output)"
  by pat_completeness auto
termination
proof (relation "measure (\<lambda>(source, total_cost, current_cost, output). length source)",
       goal_cases)
  case 1
  show ?case by simp
next
  case (2 source total_cost current_cost out pos chosen)
  then have "pos < length source"
    using choose_best_less [of 0 0 source "dbl 0"] by simp
  then show ?case by (simp add: erase_def)
next
  case (3 source total_cost current_cost out pos chosen)
  then have "pos < length source"
    using choose_best_less [of 0 0 source "dbl 0"] by simp
  then show ?case by (simp add: erase_def)
qed

definition greedy_max_defense :: "ArmorVector \<Rightarrow> double \<Rightarrow> ArmorVector" where
  "greedy_max_defense armors total_cost = greedy_loop armors total_cost (dbl 0) []"

section \<open>\<open>exhaustive_max_defense\<close>\<close>

text \<open>
  \<open>s[i]\<close> on a \<open>std::string\<close>: a character of the string, the terminating NUL at
  \<open>i = s.size()\<close>, and undefined beyond.
\<close>

definition string_at :: "string \<Rightarrow> nat \<Rightarrow> error + char" where
  "string_at s i =
     (if i < length s then Inr (s ! i)
      else if i = length s then Inr (CHR 0x00)
      else Inl Out_of_range)"

text \<open>\<open>int pn = 1; for (int i = 0; i < n; i++) pn *= 2;\<close> in 32-bit arithmetic.\<close>

function power_set_size :: "nat \<Rightarrow> nat \<Rightarrow> int \<Rightarrow> int" where
  "power_set_size i n pn =
     (if i < n then power_set_size (Suc i) n (to_int (pn * 2)) else pn)"
  by pat_completeness auto
termination
  by (relation "measure (\<lambda>(i, n, pn). n - i)") auto

text \<open>
  The inner loop over \<open>j\<close> that adds up the cost and defense of the items whose character
  in \<open>bitmask_string\<close> is \<open>'1'\<close>.
\<close>

function subset_totals ::
  "ArmorVector \<Rightarrow> string \<Rightarrow> nat \<Rightarrow> nat \<Rightarrow> double \<times> double
     \<Rightarrow> error + double \<times> double" where
  "subset_totals armors bitmask_string j n (current_cost, current_defense) =
     (if j < n
      then (case string_at bitmask_string j of
              Inl e \<Rightarrow> Inl e
            | Inr c \<Rightarrow>
                if c = CHR ''1''
                then subset_totals armors bitmask_string (Suc j) n
                       (fadd current_cost (cost (armors ! j)),
                        fadd current_defense (defense (armors ! j)))
                else subset_totals armors bitmask_string (Suc j) n
                       (current_cost, current_defense))
      else Inr (current_cost, current_defense))"
  by pat_completeness auto
termination
  by (relation "measure (\<lambda>(armors, bitmask_string, j, n, totals). n - j)") auto

text \<open>
  The loop over the bitmasks \<open>i\<close>, \<open>0 \<le> i < pn\<close>, with \<open>best_defense\<close> and \<open>best_set\<close> as
  its state.
\<close>

function search_loop ::
  "ArmorVector \<Rightarrow> double \<Rightarrow> nat \<Rightarrow> int \<Rightarrow> int \<Rightarrow> double \<times> string
     \<Rightarrow> error + double \<times> string" where
  "search_loop armors total_cost n i pn (best_defense, best_set) =
     (if i < pn
      then (let bitmask_string = get_binary i (int n)
            in case subset_totals armors bitmask_string 0 n (dbl 0, dbl 0) of
                 Inl e \<Rightarrow> Inl e
               | Inr (current_cost, current_defense) \<Rightarrow>
                   if fle current_cost total_cost \<and> fgt current_defense best_defense
                   then search_loop armors total_cost n (i + 1) pn
                          (current_defense, bitmask_string)
                   else search_loop armors total_cost n (i + 1) pn
                          (best_defense, best_set))
      else Inr (best_defense, best_set))"
  by pat_completeness auto
termination
  by (relation "measure (\<lambda>(armors, total_cost, n, i, pn, best). nat (pn - i))") auto

text \<open>The bitmasks the loop header \<open>for (int i = 0; i < pn; i++)\<close> visits, in order.\<close>

function visited_masks :: "int \<Rightarrow> int \<Rightarrow> int list" where
  "visited_masks i pn = (if i < pn then i # visited_masks (i + 1) pn else [])"
  by pat_completeness auto
termination
  by (relation "measure (\<lambda>(i, pn). nat (pn - i))") auto

definition enumeration :: "nat \<Rightarrow> int list" where
  "enumeration n = visited_masks 0 (power_set_size 0 n 1)"

text \<open>The last loop: the items whose character in \<open>best_set\<close> is \<open>'1'\<close>, pushed in turn.\<close>

function create_output ::
  "ArmorVector \<Rightarrow> string \<Rightarrow> nat \<Rightarrow> nat \<Rightarrow> ArmorVector \<Rightarrow> error + ArmorVector" where
  "create_output armors best_set i n output =
     (if i < n
      then (case string_at best_set i of
              Inl e \<Rightarrow> Inl e
            | Inr c \<Rightarrow>
                if c = CHR ''1''
                then create_output armors best_set (Suc i) n (output @ [armors ! i])
                else create_output armors best_set (Suc i) n output)
      else Inr output)"
  by pat_completeness auto
termination
  by (relation "measure (\<lambda>(armors, best_set, i, n, output). n - i)") auto

definition exhaustive_max_defense :: "ArmorVector \<Rightarrow> double \<Rightarrow> error + ArmorVector" where
  "exhaustive_max_defense armors total_cost =
     (let n = length armors
      in if \<not> n < 64 then Inl Assertion_failed
         else (let pn = power_set_size 0 n 1
               in case search_loop armors total_cost n 0 pn (dbl (- 1), []) of
                    Inl e \<Rightarrow> Inl e
                  | Inr (best_defense, best_set) \<Rightarrow> create_output armors best_set 0 n []))"

section \<open>Auxiliary notions for the proofs\<close>

text \<open>The character \<open>get_binary\<close> writes for a bit, and the digits of a number, lowest first.\<close>

definition digit :: "bool \<Rightarrow> char" where
  "digit b = (if b then CHR ''1'' else CHR ''0'')"

definition bits_lsb :: "nat \<Rightarrow> int \<Rightarrow> string" where
  "bits_lsb m num = map (\<lambda>k. digit (bit num k)) [0..<m]"

text \<open>
  The indices from \<open>i\<close> up to \<open>n\<close> at which a bitmask string holds \<open>'1'\<close>: the items
  the two loops over a bitmask string pick.
\<close>

definition chosen_indices :: "string \<Rightarrow> nat \<Rightarrow> nat \<Rightarrow> nat list" where
  "chosen_indices bs i n = filter (\<lambda>k. k < length bs \<and> bs ! k = CHR ''1'') [i..<n]"

text \<open>
  The subset of \<open>{0, ..., n - 1}\<close> designated by the integer \<open>i\<close>, once \<open>i\<close> is passed to
  \<open>get_binary\<close> through its \<open>int\<close> parameter.
\<close>

definition decode_subset :: "nat \<Rightarrow> int \<Rightarrow> nat set" where
  "decode_subset n i = set (chosen_indices (get_binary (to_int i) (int n)) 0 n)"

text \<open>The three items of the worked scenario: costs 10, 20, 30 and defenses 60, 100, 120.\<close>

definition scenario :: ArmorVector where
  "scenario = [\<lparr>description = ''a'', cost = dbl 10, defense = dbl 60\<rparr>,
               \<lparr>description = ''b'', cost = dbl 20, defense = dbl 100\<rparr>,
               \<lparr>description = ''c'', cost = dbl 30, defense = dbl 120\<rparr>]"

text \<open>An item of cost 1 and defense 1.\<close>

definition unit_item :: ArmorItem where
  "unit_item = \<lparr>description = ''a'', cost = dbl 1, defense = dbl 1\<rparr>"

text \<open>
  Two items on which the rounding of a sum shows: \<open>big_item\<close> costs \<open>2^53\<close>, and
  \<open>1 + 2^53\<close> rounds to \<open>2^53\<close>.
\<close>

definition big_item :: ArmorItem where
  "big_item = \<lparr>description = ''A'', cost = dbl 9007199254740992, defense = dbl 9007199254740992\<rparr>"

definition small_item :: ArmorItem where
  "small_item = \<lparr>description = ''B'', cost = dbl 1, defense = dbl 2\<rparr>"

text \<open>
  Three items on which the order of the additions shows: with the costs 1, 1 and \<open>2^53\<close>,
  \<open>2^53 + 1 + 1\<close> is \<open>2^53\<close>, as each addition of 1 is rounded away, while \<open>1 + 1 + 2^53\<close>
  is \<open>2^53 + 2\<close>. The third item has the greatest ratio, 6 against 5.
\<close>

definition order_items :: ArmorVector where
  "order_items = [\<lparr>description = ''a'', cost = dbl 1, defense = dbl 5\<rparr>,
                  \<lparr>description = ''b'', cost = dbl 1, defense = dbl 5\<rparr>,
                  \<lparr>description = ''c'', cost = dbl 9007199254740992,
                     defense = dbl 54043195528445952\<rparr>]"

text \<open>The sum of the costs of a vector of items with finite costs, as a rational number.\<close>

definition exact_cost :: "ArmorVector \<Rightarrow> rat" where
  "exact_cost armors = sum_list (map (\<lambda>armor. fval (cost armor)) armors)"

text \<open>
  The reference process of the specification for the greedy optimizer, written from its
  words. The ratio of an item is its value divided by its cost, a \<open>double\<close>.
\<close>

definition ratio :: "ArmorItem \<Rightarrow> double" where
  "ratio a = fdiv (defense a) (cost a)"

text \<open>
  The remaining item with the maximum ratio, the first index in the working order winning on
  ties: the first position whose ratio is at least every ratio in the working copy. When no
  position is such (a NaN among the ratios), the result is the length of the working copy.
\<close>

definition max_ratio_index :: "ArmorVector \<Rightarrow> nat" where
  "max_ratio_index working =
     length (takeWhile (\<lambda>a. \<not> list_all (\<lambda>b. fle (ratio b) (ratio a)) working) working)"

text \<open>
  Starting from a working copy and \<open>current_cost = 0\<close>: select that item, append it to the
  output and add its cost if \<open>current_cost\<close> plus its cost is at most the budget, remove it
  from the working copy either way, and stop when the working copy is empty. The process has
  no result (\<open>None\<close>) when there is no item of maximum ratio to select.
\<close>

function reference_process ::
  "ArmorVector \<Rightarrow> double \<Rightarrow> double \<Rightarrow> ArmorVector \<Rightarrow> ArmorVector option" where
  "reference_process working budget current_cost out =
     (if working = [] then Some out
      else (let k = max_ratio_index working
            in if \<not> k < length working then None
               else (let chosen = working ! k;
                         remaining = take k working @ drop (Suc k) working
                     in if fle (fadd current_cost (cost chosen)) budget
                        then reference_process remaining budget (fadd current_cost (cost chosen))
                               (out @ [chosen])
                        else reference_process remaining budget current_cost out)))"
  by pat_completeness auto
termination
  by (relation "measure (\<lambda>(working, budget, current_cost, out). length working)") auto

definition greedy_reference :: "ArmorVector \<Rightarrow> double \<Rightarrow> ArmorVector option" where
  "greedy_reference items budget = reference_process items budget (dbl 0) []"

text \<open>
  The items a bitmask designates among \<open>armors\<close>, and their total cost and defense as the
  program adds them up.
\<close>

definition mask_items :: "ArmorVector \<Rightarrow> int \<Rightarrow> ArmorVector" where
  "mask_items armors i =
     map (nth armors) (chosen_indices (get_binary i (int (length armors))) 0 (length armors))"

definition mask_cost :: "ArmorVector \<Rightarrow> int \<Rightarrow> double" where
  "mask_cost armors i = fst (sum_armor_vector (mask_items armors i))"

definition mask_defense :: "ArmorVector \<Rightarrow> int \<Rightarrow> double" where
  "mask_defense armors i = snd (sum_armor_vector (mask_items armors i))"

text \<open>
  The invariant of the search loop before bitmask \<open>t\<close>: either nothing was recorded and no
  feasible bitmask below \<open>t\<close> has a total defense above \<open>-1\<close>, or the record is a feasible
  bitmask \<open>k\<close> below \<open>t\<close> whose total defense no feasible bitmask below \<open>t\<close> exceeds and no
  feasible bitmask below \<open>k\<close> reaches.
\<close>

definition best_so_far :: "ArmorVector \<Rightarrow> double \<Rightarrow> int \<Rightarrow> double \<times> string \<Rightarrow> bool" where
  "best_so_far armors b t st \<longleftrightarrow>
     (st = (dbl (- 1), []) \<and>
        (\<forall>j. 0 \<le> j \<and> j < t \<and> fle (mask_cost armors j) b
              \<longrightarrow> \<not> fgt (mask_defense armors j) (dbl (- 1))))
     \<or> (\<exists>k. 0 \<le> k \<and> k < t \<and> st = (mask_defense armors k, get_binary k (int (length armors)))
           \<and> fle (mask_cost armors k) b \<and> fgt (mask_defense armors k) (dbl (- 1))
           \<and> (\<forall>j. 0 \<le> j \<and> j < t \<and> fle (mask_cost armors j) b
                  \<longrightarrow> \<not> fgt (mask_defense armors j) (mask_defense armors k))
           \<and> (\<forall>j. 0 \<le> j \<and> j < k \<and> fle (mask_cost armors j) b
                  \<longrightarrow> \<not> fle (mask_defense armors k) (mask_defense armors j)))"

text \<open>
  One pass of the body of the search loop for the bitmask \<open>i\<close>, and the passes for a list of
  bitmasks in turn. They serve to state which bitmasks the search loop evaluates.
\<close>

fun visit ::
  "ArmorVector \<Rightarrow> double \<Rightarrow> nat \<Rightarrow> int \<Rightarrow> double \<times> string \<Rightarrow> error + double \<times> string" where
  "visit armors total_cost n i (best_defense, best_set) =
     (let bitmask_string = get_binary i (int n)
      in case subset_totals armors bitmask_string 0 n (dbl 0, dbl 0) of
           Inl e \<Rightarrow> Inl e
         | Inr (current_cost, current_defense) \<Rightarrow>
             if fle current_cost total_cost \<and> fgt current_defense best_defense
             then Inr (current_defense, bitmask_string)
             else Inr (best_defense, best_set))"

fun visit_all ::
  "(int \<Rightarrow> double \<times> string \<Rightarrow> error + double \<times> string) \<Rightarrow> int list \<Rightarrow> double \<times> string
     \<Rightarrow> error + double \<times> string" where
  "visit_all f [] best = Inr best"
| "visit_all f (i # rest) best =
     (case f i best of Inl e \<Rightarrow> Inl e | Inr best' \<Rightarrow> visit_all f rest best')"

declare binary_digits.simps [simp del] fix_length.simps [simp del] fix_reverse.simps [simp del]
  power_set_size.simps [simp del] subset_totals.simps [simp del]
  search_loop.simps [simp del] visited_masks.simps [simp del] create_output.simps [simp del]
  greedy_loop.simps [simp del] reference_process.simps [simp del]

section \<open>Facts about the \<open>double\<close> arithmetic\<close>

lemma floor_log2_bounds:
  assumes "0 < r"
  shows "2 powi floor_log2 r \<le> r \<and> r < 2 powi (floor_log2 r + 1)"
proof -
  obtain p q where pq: "quotient_of r = (p, q)" by (cases "quotient_of r")
  have q: "0 < q" using quotient_of_denom_pos [OF pq] .
  have r: "r = of_int p / of_int q" using quotient_of_div [OF pq] .
  have p: "0 < p" using assms q unfolding r by (simp add: zero_less_divide_iff)
  define bp where "bp = bitlen p"
  define bq where "bq = bitlen q"
  have bp: "2 ^ nat (bp - 1) \<le> p" "p < 2 ^ nat bp" "1 \<le> bp"
    using bitlen_bounds [OF p] p by (auto simp: bp_def bitlen_alt_def)
  have bq: "2 ^ nat (bq - 1) \<le> q" "q < 2 ^ nat bq" "1 \<le> bq"
    using bitlen_bounds [OF q] q by (auto simp: bq_def bitlen_alt_def)
  have P1: "(2::rat) powi (bp - 1) = 2 ^ nat (bp - 1)" and P2: "(2::rat) powi bp = 2 ^ nat bp"
    and Q1: "(2::rat) powi (bq - 1) = 2 ^ nat (bq - 1)" and Q2: "(2::rat) powi bq = 2 ^ nat bq"
    using bp(3) bq(3) by (simp_all add: power_int_def)
  have p1: "(2::rat) ^ nat (bp - 1) \<le> of_int p" and p2: "(of_int p :: rat) < 2 ^ nat bp"
    using bp(1,2) by (metis of_int_le_iff of_int_numeral of_int_power, metis of_int_less_iff of_int_numeral of_int_power)
  have q1: "(2::rat) ^ nat (bq - 1) \<le> of_int q" and q2: "(of_int q :: rat) < 2 ^ nat bq"
    using bq(1,2) by (metis of_int_le_iff of_int_numeral of_int_power, metis of_int_less_iff of_int_numeral of_int_power)
  have "2 powi (bp - bq - 1) = (2::rat) powi (bp - 1) / 2 powi bq"
    by (simp add: power_int_diff power_int_add algebra_simps)
  also have "\<dots> < of_int p / of_int q"
    unfolding P1 Q2 using p1 q2 q by (intro frac_less2) simp_all
  finally have lo: "2 powi (bp - bq - 1) < r" unfolding r .
  have "r = of_int p / of_int q" by (rule r)
  also have "\<dots> < (2::rat) powi bp / 2 powi (bq - 1)"
    unfolding P2 Q1 using p2 q1 p by (intro frac_less) simp_all
  also have "\<dots> = 2 powi (bp - bq + 1)"
    by (simp add: power_int_diff power_int_add algebra_simps)
  finally have hi: "r < 2 powi (bp - bq + 1)" .
  show ?thesis
    using lo hi by (auto simp: floor_log2_def pq bp_def [symmetric] bq_def [symmetric] Let_def)
qed

lemma pow2_less_D: "(2::rat) powi a < 2 powi b \<Longrightarrow> a < b"
proof (rule ccontr)
  assume lt: "(2::rat) powi a < 2 powi b" and "\<not> a < b"
  then have "b \<le> a" by simp
  then have "(2::rat) powi b \<le> 2 powi a" by (intro power_int_increasing) simp_all
  with lt show False by simp
qed

lemma floor_log2_unique:
  assumes "0 < r" "2 powi e \<le> r" "r < 2 powi (e + 1)"
  shows "floor_log2 r = e"
proof -
  note b = floor_log2_bounds [OF assms(1)]
  have "2 powi floor_log2 r < (2::rat) powi (e + 1)" using b assms(3) by linarith
  then have "floor_log2 r < e + 1" by (rule pow2_less_D)
  moreover have "(2::rat) powi e < 2 powi (floor_log2 r + 1)" using b assms(2) by linarith
  then have "e < floor_log2 r + 1" by (rule pow2_less_D)
  ultimately show ?thesis by simp
qed

lemma round_half_even_int [simp]: "round_half_even (of_int k) = k"
  by (simp add: round_half_even_def)

lemma round64_exact:
  assumes "0 < k" "k < 2 ^ 53"
  shows "round64 s (of_int k) = Finite s (of_int k)"
proof -
  define e where "e = floor_log2 (of_int k)"
  have kpos: "(0::rat) < of_int k" using assms(1) by simp
  note b = floor_log2_bounds [OF kpos, folded e_def]
  have k53: "(of_int k :: rat) < 2 ^ 53"
    using assms(2) by (metis of_int_less_iff of_int_numeral of_int_power)
  have "(2::rat) powi (53::int) = 2 ^ 53" by (simp add: power_int_def)
  then have "(2::rat) powi e < 2 powi 53"
    using b k53 by linarith
  then have "e < 53" by (rule pow2_less_D)
  then have e: "e \<le> 52" by simp
  have e0: "0 \<le> e"
  proof (rule ccontr)
    assume "\<not> 0 \<le> e"
    then have "e + 1 \<le> 0" by simp
    then have "(2::rat) powi (e + 1) \<le> 2 powi 0" by (intro power_int_increasing) simp_all
    with b have "(of_int k :: rat) < 1" by simp
    with assms(1) show False by simp
  qed
  have m: "max e (- 1022) = e" using e0 by simp
  have q: "(2::rat) powi (e - 52) = 1 / 2 ^ nat (52 - e)"
    using e by (simp add: power_int_def field_simps)
  have "of_int k / (2 powi (e - 52) :: rat) = of_int (k * 2 ^ nat (52 - e))"
    by (simp add: q)
  then have n: "round_half_even (of_int k / (2 powi (e - 52) :: rat)) = k * 2 ^ nat (52 - e)"
    by (simp only: round_half_even_int)
  have ne: "\<not> (1024 \<le> e \<or> (e = 1023 \<and> k * 2 ^ nat (52 - e) = 2 ^ 53))" using e by simp
  show ?thesis
    unfolding round64_def Let_def e_def [symmetric] m n using ne by (simp add: q)
qed

lemma round64_code [code]:
  "round64 s r =
     (if 0 < r \<and> r < 9007199254740992 \<and> snd (quotient_of r) = 1 then Finite s r
      else (let e = max (floor_log2 r) (- 1022);
                q = 2 powi (e - 52);
                n = round_half_even (r / q)
            in if 1024 \<le> e \<or> (e = 1023 \<and> n = 2 ^ 53) then Infinity s
               else Finite s (of_int n * q)))"
proof (cases "0 < r \<and> r < 9007199254740992 \<and> snd (quotient_of r) = 1")
  case True
  obtain p q where pq: "quotient_of r = (p, q)" by (cases "quotient_of r")
  with True have r: "r = of_int p" using quotient_of_div [OF pq] by simp
  have "0 < p" "p < 2 ^ 53" using True unfolding r by simp_all
  then show ?thesis using True round64_exact [of p s] by (simp add: r)
next
  case False
  then show ?thesis unfolding round64_def by (simp only: if_False)
qed

lemma dbl_0: "dbl 0 = Finite False 0"
  by (simp add: dbl_def)

lemma dbl_minus_1: "dbl (- 1) = Finite True 1"
  using round64_exact [of 1 True] by (simp add: dbl_def)

lemma fgt_irrefl [simp]: "\<not> fgt x x"
  by (simp add: fgt_def flt_def)

lemma fgt_trans: "fgt x y \<Longrightarrow> fgt y z \<Longrightarrow> fgt x z"
  by (auto simp: fgt_def flt_def)

lemma fle_fgt_trans: "fle x z \<Longrightarrow> fgt x y \<Longrightarrow> fgt z y"
  by (auto simp: fgt_def flt_def fle_def)






lemma fle_not_fgt: "fle x y \<Longrightarrow> \<not> fgt x y"
  by (auto simp: fgt_def flt_def fle_def)

lemma fgt_not_nan: "fgt x y \<Longrightarrow> \<not> is_nan x \<and> \<not> is_nan y"
  by (auto simp: fgt_def flt_def)

lemma is_nan_simps [simp]:
  "is_nan NaN" "\<not> is_nan (Infinity s)" "\<not> is_nan (Finite s m)"
  by (simp_all add: is_nan_def)

lemma round64_not_nan [simp]: "\<not> is_nan (round64 s r)"
  by (simp add: round64_def Let_def)


section \<open>\<open>get_binary\<close> writes the binary digits, highest first\<close>

lemma char_of_digit: "char_of (48 + (num::int) mod 2) = digit (odd num)"
proof (cases "odd num")
  case True
  then have "num mod 2 = 1" by presburger
  moreover have "char_of (49::int) = CHR ''1''" by code_simp
  ultimately show ?thesis using True by (simp add: digit_def)
next
  case False
  then have "num mod 2 = 0" by presburger
  moreover have "char_of (48::int) = CHR ''0''" by code_simp
  ultimately show ?thesis using False by (simp add: digit_def)
qed

lemma bits_lsb_Suc: "bits_lsb (Suc m) num = digit (odd num) # bits_lsb m (num div 2)"
  unfolding bits_lsb_def
  by (simp only: upt_conv_Cons [of 0 "Suc m"] map_Suc_upt [symmetric] list.map)
     (simp add: bit_Suc bit_0 comp_def)

lemma binary_digits_nonneg:
  "0 \<le> num \<Longrightarrow>
   \<exists>m. binary_digits num acc = acc @ bits_lsb m num \<and> num < 2 ^ m \<and> (m = 0 \<or> 2 ^ (m - 1) \<le> num)"
proof (induction num acc rule: binary_digits.induct)
  case (1 num bin_str)
  show ?case
  proof (cases "num = 0")
    case True
    then show ?thesis
      by (intro exI [of _ 0]) (simp add: binary_digits.simps bits_lsb_def)
  next
    case False
    with 1 have pos: "0 < num" by simp
    then have sd: "num sdiv 2 = num div 2" and sm: "num smod 2 = num mod 2"
      by (simp_all add: signed_divide_int_def signed_modulo_int_def)
    have "0 \<le> num sdiv 2" using pos sd by simp
    from "1.IH" [OF False refl this] obtain m where
      m: "binary_digits (num sdiv 2) (bin_str @ [char_of (of_char CHR ''0'' + num smod 2)])
            = (bin_str @ [char_of (of_char CHR ''0'' + num smod 2)]) @ bits_lsb m (num sdiv 2)"
         "num sdiv 2 < 2 ^ m" "m = 0 \<or> 2 ^ (m - 1) \<le> num sdiv 2"
      by blast
    have "binary_digits num bin_str = bin_str @ bits_lsb (Suc m) num"
      using False m(1) by (subst binary_digits.simps) (simp add: sd sm char_of_digit bits_lsb_Suc Let_def)
    moreover have "num < 2 ^ Suc m" using m(2) sd by simp
    moreover have "2 ^ (Suc m - 1) \<le> num"
    proof (cases m)
      case 0
      then show ?thesis using pos by simp
    next
      case (Suc k)
      then have "2 ^ k \<le> num div 2" using m(3) sd by simp
      then show ?thesis using Suc by simp
    qed
    ultimately show ?thesis by blast
  qed
qed

lemma fix_length_eq:
  "fix_length i len s = s @ replicate (nat (len - i)) CHR ''0''"
proof (induction i len s rule: fix_length.induct)
  case (1 i len s)
  show ?case
  proof (cases "i < len")
    case True
    then have "nat (len - i) = Suc (nat (len - (i + 1)))" by simp
    with True 1 show ?thesis
      by (subst fix_length.simps) (simp add: replicate_app_Cons_same)
  next
    case False
    then show ?thesis by (subst fix_length.simps) simp
  qed
qed

lemma length_fix_reverse [simp]: "length (fix_reverse i len s) = length s"
proof (induction i len s rule: fix_reverse.induct)
  case (1 i len s)
  then show ?case
    by (subst fix_reverse.simps) (simp add: swap_chars_def)
qed

lemma swap_chars_nth:
  assumes "a < b" "b < length s" "k < length s"
  shows "swap_chars a b s ! k = (if k = a then s ! b else if k = b then s ! a else s ! k)"
  using assms by (simp add: swap_chars_def nth_list_update)

lemma fix_reverse_nth:
  "int L \<le> int (length s) \<Longrightarrow> 0 \<le> i \<Longrightarrow> k < length s \<Longrightarrow>
   fix_reverse i (int L) s ! k =
     (if nat i \<le> k \<and> k < L - nat i then s ! (L - 1 - k) else s ! k)"
proof (induction i "int L" s rule: fix_reverse.induct)
  case (1 i s)
  have half: "int L sdiv 2 = int (L div 2)"
    by (simp add: signed_divide_int_def sgn_if zdiv_int)
  define a where "a = nat i"
  show ?case
  proof (cases "i < int L sdiv 2")
    case True
    define b where "b = L - 1 - a"
    let ?s = "swap_chars a b s"
    have a: "a < L div 2" using True half "1.prems" by (simp add: a_def)
    then have ab: "a < b" and bL: "b < L" and La: "L - 1 - b = a"
      by (simp_all add: b_def)
    have bs: "b < length s" using bL "1.prems" by simp
    have j: "nat (int L - 1 - i) = b" using "1.prems" by (simp add: b_def a_def; linarith?)
    have i1: "nat (i + 1) = Suc a" using "1.prems" by (simp add: a_def)
    have len: "length ?s = length s" by (simp add: swap_chars_def)
    have IH: "fix_reverse (i + 1) (int L) ?s ! k =
        (if Suc a \<le> k \<and> k < L - Suc a then ?s ! (L - 1 - k) else ?s ! k)"
      using "1.hyps" [OF True] "1.prems" len by (simp add: j i1 a_def [symmetric])
    have step: "fix_reverse i (int L) s ! k = fix_reverse (i + 1) (int L) ?s ! k"
      using True by (subst fix_reverse.simps) (simp add: j a_def [symmetric])
    have Lb: "L - Suc a = b" by (simp add: b_def)
    have aLa: "a < L - a" using a by linarith
    have bLa: "b < L - a" using a unfolding b_def by linarith
    consider "k = a" | "k = b" | "a < k" "k < b" | "k < a" | "b < k"
      by linarith
    then have "(if Suc a \<le> k \<and> k < L - Suc a then ?s ! (L - 1 - k) else ?s ! k)
        = (if a \<le> k \<and> k < L - a then s ! (L - 1 - k) else s ! k)"
    proof cases
      case 1
      then show ?thesis using ab bs bL aLa by (simp add: swap_chars_nth Lb [symmetric])
    next
      case 2
      then show ?thesis using ab bs bL La bLa by (simp add: swap_chars_nth Lb)
    next
      case 3
      have L: "L \<le> length s" using "1.prems" by simp
      from 3 have k: "a < k" "k < L - 1 - a" unfolding b_def by blast+
      have "L - 1 - k \<noteq> a" using k by linarith
      moreover have "L - 1 - k \<noteq> b" unfolding b_def using k by linarith
      moreover have "L - 1 - k < length s" using k L by linarith
      moreover have "k < L - a" using k by linarith
      ultimately show ?thesis using 3 ab bs by (simp add: swap_chars_nth Lb)
    next
      case 4
      then show ?thesis using ab bs "1.prems" by (simp add: swap_chars_nth Lb)
    next
      case 5
      then have "\<not> k < L - a" unfolding b_def by linarith
      then show ?thesis using 5 ab bs "1.prems" by (simp add: swap_chars_nth Lb)
    qed
    then show ?thesis by (simp add: step IH a_def [symmetric])
  next
    case False
    then have "L div 2 \<le> a" using half "1.prems" by (simp add: a_def; linarith?)
    then have "a \<le> k \<and> k < L - a \<Longrightarrow> L - 1 - k = k" by linarith
    then show ?thesis using False by (subst fix_reverse.simps) (auto simp: a_def)
  qed
qed

text \<open>
  For \<open>0 \<le> num < 2^n\<close>, \<open>get_binary num n\<close> is the \<open>n\<close>-digit binary numeral of \<open>num\<close>: character
  \<open>j\<close> is the digit of bit \<open>n - 1 - j\<close>.
\<close>

lemma get_binary_eq:
  assumes "0 \<le> num" "num < 2 ^ n"
  shows "get_binary num (int n) = map (\<lambda>j. digit (bit num (n - 1 - j))) [0..<n]"
proof -
  obtain m where m: "binary_digits num [] = bits_lsb m num" "num < 2 ^ m"
      "m = 0 \<or> 2 ^ (m - 1) \<le> num"
    using binary_digits_nonneg [OF assms(1), of "[]"] by auto
  have mn: "m \<le> n"
  proof (cases m)
    case 0 then show ?thesis by simp
  next
    case (Suc k)
    then have "(2::int) ^ k \<le> num" using m(3) by simp
    then have "(2::int) ^ k < 2 ^ n" using assms(2) by linarith
    then have "k < n" by simp
    then show ?thesis using Suc by simp
  qed
  let ?p = "bits_lsb m num @ replicate (n - m) CHR ''0''"
  have hi: "\<not> bit num k" if "m \<le> k" for k
  proof -
    have "num < 2 ^ k" using m(2) that
      by (meson less_le_trans one_le_numeral power_increasing)
    then show ?thesis using assms(1)
      by (simp add: bit_iff_odd)
  qed
  have p: "?p = bits_lsb n num"
    by (rule nth_equalityI) (use mn hi in \<open>auto simp: bits_lsb_def nth_append digit_def\<close>)
  have gb: "get_binary num (int n) = fix_reverse 0 (int n) (bits_lsb n num)"
    using mn p by (simp add: get_binary_def m(1) fix_length_eq bits_lsb_def nat_diff_distrib')
  show ?thesis
    unfolding gb
    by (rule nth_equalityI) (auto simp: fix_reverse_nth bits_lsb_def)
qed

section \<open>The loops of \<open>exhaustive_max_defense\<close>\<close>

lemma sum_armor_vector_snoc:
  "sum_armor_vector (xs @ [x]) =
     (fadd (fst (sum_armor_vector xs)) (cost x), fadd (snd (sum_armor_vector xs)) (defense x))"
  by (simp add: sum_armor_vector_def split: prod.splits)

lemma sum_armor_vector_Nil [simp]: "sum_armor_vector [] = (dbl 0, dbl 0)"
  by (simp add: sum_armor_vector_def)

lemma chosen_indices_step:
  "i < n \<Longrightarrow> chosen_indices bs i n =
     (if i < length bs \<and> bs ! i = CHR ''1'' then [i] else []) @ chosen_indices bs (Suc i) n"
  by (simp add: chosen_indices_def upt_conv_Cons)

lemma chosen_indices_done: "\<not> i < n \<Longrightarrow> chosen_indices bs i n = []"
  by (simp add: chosen_indices_def)

lemma create_output_eq:
  "create_output armors bs i n out =
     (if i < n \<and> Suc (length bs) < n then Inl Out_of_range
      else Inr (out @ map (nth armors) (chosen_indices bs i n)))"
proof (induction armors bs i n out rule: create_output.induct)
  case (1 armors bs i n out)
  show ?case
  proof (cases "i < n")
    case False
    then show ?thesis
      by (subst create_output.simps) (simp add: chosen_indices_done)
  next
    case True
    show ?thesis
    proof (cases "length bs < i")
      case True
      with \<open>i < n\<close> show ?thesis
        by (subst create_output.simps) (simp add: string_at_def)
    next
      case False
      then have at: "string_at bs i = Inr (if i < length bs then bs ! i else CHR 0x00)"
        by (simp add: string_at_def)
      show ?thesis
        using True False "1.IH" [OF True at]
        by (subst create_output.simps) (auto simp: at chosen_indices_step [OF True])
    qed
  qed
qed

text \<open>
  The loop over a bitmask string adds the chosen items to the totals in ascending index
  order: the very additions \<open>sum_armor_vector\<close> makes on the vector of these items.
\<close>

lemma subset_totals_eq:
  "subset_totals armors bs j n (c, d) =
     (if j < n \<and> Suc (length bs) < n then Inl Out_of_range
      else Inr (fold (\<lambda>armor (total_cost, total_defense).
                        (fadd total_cost (cost armor), fadd total_defense (defense armor)))
                  (map (nth armors) (chosen_indices bs j n)) (c, d)))"
proof (induction armors bs j n "(c, d)" arbitrary: c d rule: subset_totals.induct)
  case (1 armors bs j n c d)
  show ?case
  proof (cases "j < n")
    case False
    then show ?thesis
      by (subst subset_totals.simps) (simp add: chosen_indices_done)
  next
    case True
    show ?thesis
    proof (cases "length bs < j")
      case True
      with \<open>j < n\<close> show ?thesis
        by (subst subset_totals.simps) (simp add: string_at_def)
    next
      case False
      then have at: "string_at bs j = Inr (if j < length bs then bs ! j else CHR 0x00)"
        by (simp add: string_at_def)
      show ?thesis
        using True False "1.hyps" [OF True at]
        by (subst subset_totals.simps) (auto simp: at chosen_indices_step [OF True])
    qed
  qed
qed

lemma subset_totals_sum:
  "subset_totals armors bs 0 n (dbl 0, dbl 0) =
     (if 0 < n \<and> Suc (length bs) < n then Inl Out_of_range
      else Inr (sum_armor_vector (map (nth armors) (chosen_indices bs 0 n))))"
  by (simp add: subset_totals_eq sum_armor_vector_def)

lemma to_int_eq: "to_int k = signed_take_bit 31 k"
  by (simp add: to_int_def sint_sbintrunc')

lemma to_int_mult: "to_int (to_int a * b) = to_int (a * b)"
  unfolding to_int_def by simp

lemma power_set_size_eq:
  "power_set_size i n pn = (if i < n then to_int (pn * 2 ^ (n - i)) else pn)"
proof (induction i n pn rule: power_set_size.induct)
  case (1 i n pn)
  show ?case
  proof (cases "i < n")
    case False
    then show ?thesis by (subst power_set_size.simps) simp
  next
    case True
    then have e: "n - i = Suc (n - Suc i)" by simp
    show ?thesis
    proof (cases "Suc i < n")
      case True
      with \<open>i < n\<close> "1.IH" [OF \<open>i < n\<close>] show ?thesis
        by (subst power_set_size.simps) (simp add: to_int_mult e mult.assoc)
    next
      case False
      with \<open>i < n\<close> have "n - i = 1" by simp
      with \<open>i < n\<close> False "1.IH" [OF \<open>i < n\<close>] show ?thesis
        by (subst power_set_size.simps) simp
    qed
  qed
qed

lemma power_set_size_small: "n \<le> 30 \<Longrightarrow> power_set_size 0 n 1 = 2 ^ n"
proof -
  assume n: "n \<le> 30"
  have "(2::int) ^ n \<le> 2 ^ 30" using n by (intro power_increasing) simp_all
  then have hi: "(2::int) ^ n < 2 ^ 31" by simp
  have "- (2 ^ 31) \<le> (0::int)" by simp
  also have "(0::int) \<le> 2 ^ n" by simp
  finally have lo: "- (2 ^ 31) \<le> (2::int) ^ n" .
  have "signed_take_bit 31 ((2::int) ^ n) = 2 ^ n"
    by (rule signed_take_bit_int_eq_self [OF lo hi])
  then show ?thesis
    by (cases n) (simp_all add: power_set_size_eq to_int_eq)
qed

lemma power_set_size_large: "31 \<le> n \<Longrightarrow> power_set_size 0 n 1 \<le> 0"
proof -
  assume n: "31 \<le> n"
  then obtain k where k: "n = 31 + k" using le_Suc_ex by blast
  have "to_int (2 ^ n) \<le> 0"
  proof (cases k)
    case 0
    then show ?thesis using k by (simp add: to_int_def)
  next
    case (Suc m)
    then have "(2::int) ^ 32 dvd 2 ^ n" using k by (intro le_imp_power_dvd) simp
    then have w0: "(word_of_int (2 ^ n) :: 32 word) = 0"
      using word_of_int_eq_0_iff [where ?'a = 32, of "2 ^ n"] by simp
    have "to_int (2 ^ n) = sint (0 :: 32 word)"
      unfolding to_int_def by (simp only: w0)
    then show ?thesis by simp
  qed
  then show ?thesis using n by (simp add: power_set_size_eq)
qed

lemma search_loop_skip: "pn \<le> i \<Longrightarrow> search_loop armors b n i pn st = Inr st"
  by (cases st) (simp add: search_loop.simps)

text \<open>
  From 31 items on \<open>pn\<close> is not positive, the search loop is skipped, and the output loop
  indexes the empty \<open>best_set\<close> up to \<open>n - 1\<close>.
\<close>

lemma exhaustive_overflow:
  "31 \<le> length armors \<Longrightarrow> length armors < 64 \<Longrightarrow>
   exhaustive_max_defense armors total_cost = Inl Out_of_range"
  using power_set_size_large [of "length armors"]
  by (auto simp: exhaustive_max_defense_def Let_def search_loop_skip create_output_eq)

text \<open>
  The search loop runs its body once for each bitmask of \<open>visited_masks\<close>, in that order: the
  exhaustive optimizer evaluates exactly the bitmasks of \<open>enumeration\<close>.
\<close>

lemma search_loop_visits:
  "search_loop armors total_cost n i pn best
     = visit_all (visit armors total_cost n) (visited_masks i pn) best"
proof (induction armors total_cost n i pn best rule: search_loop.induct)
  case (1 armors total_cost n i pn best_defense best_set)
  show ?case
  proof (cases "i < pn")
    case False
    then show ?thesis
      by (subst search_loop.simps, subst visited_masks.simps) simp
  next
    case True
    define s where "s = get_binary i (int n)"
    show ?thesis
    proof (cases "subset_totals armors s 0 n (dbl 0, dbl 0)")
      case (Inl e)
      then show ?thesis
        using True
        by (subst search_loop.simps, subst visited_masks.simps)
           (simp add: Let_def s_def [symmetric])
    next
      case (Inr totals)
      obtain c d where cd: "totals = (c, d)" by (cases totals)
      show ?thesis
      proof (cases "fle c total_cost \<and> fgt d best_defense")
        case yes: True
        from "1.IH"(1) [OF True s_def Inr cd [symmetric] yes] show ?thesis
          using True yes Inr cd
          by (subst search_loop.simps, subst visited_masks.simps)
             (simp add: Let_def s_def [symmetric])
      next
        case no: False
        from "1.IH"(2) [OF True s_def Inr cd [symmetric] no] show ?thesis
          using True no Inr cd
          by (subst search_loop.simps, subst visited_masks.simps)
             (auto simp: Let_def s_def [symmetric])
      qed
    qed
  qed
qed

lemma exhaustive_visits_enumeration:
  "length armors < 64 \<Longrightarrow>
   exhaustive_max_defense armors total_cost =
     (case visit_all (visit armors total_cost (length armors)) (enumeration (length armors))
             (dbl (- 1), []) of
        Inl e \<Rightarrow> Inl e
      | Inr (best_defense, best_set) \<Rightarrow> create_output armors best_set 0 (length armors) [])"
  by (simp add: exhaustive_max_defense_def Let_def search_loop_visits enumeration_def)

lemma to_int_id: "0 \<le> i \<Longrightarrow> i < 2 ^ 31 \<Longrightarrow> to_int i = i"
  unfolding to_int_eq by (rule signed_take_bit_int_eq_self) simp_all

lemma digit_eq_1 [simp]: "(digit b = CHR ''1'') = b"
  by (simp add: digit_def)

lemma chosen_indices_get_binary:
  "0 \<le> i \<Longrightarrow> i < 2 ^ n \<Longrightarrow>
   chosen_indices (get_binary i (int n)) 0 n = filter (\<lambda>j. bit i (n - 1 - j)) [0..<n]"
  unfolding chosen_indices_def
  by (rule filter_cong) (simp_all add: get_binary_eq)

lemma scenario_exhaustive:
  "exhaustive_max_defense scenario (dbl 50) = Inr [scenario ! 1, scenario ! 2]"
  by code_simp

lemma scenario_greedy: "greedy_max_defense scenario (dbl 50) = [scenario ! 0, scenario ! 1]"
  by code_simp

section \<open>Feasibility of what the optimizers return\<close>

text \<open>
  The greedy loop keeps in \<open>current_cost\<close> the total cost \<open>sum_armor_vector\<close> computes for
  the output so far, by the same additions in the same order, and accepts an item only when
  the new \<open>current_cost\<close> is at most the budget.
\<close>

lemma greedy_loop_cost:
  "fst (sum_armor_vector out) = c \<Longrightarrow> fle c b \<Longrightarrow>
   fle (fst (sum_armor_vector (greedy_loop src b c out))) b"
proof (induction src b c out rule: greedy_loop.induct)
  case (1 source total_cost current_cost out)
  show ?case
  proof (cases "source = []")
    case True
    then show ?thesis using "1.prems" by (simp add: greedy_loop.simps)
  next
    case False
    define pos where "pos = choose_best source 0 (dbl 0) 0"
    define chosen where "chosen = source ! pos"
    show ?thesis
    proof (cases "fle (fadd current_cost (cost chosen)) total_cost")
      case True
      have "fst (sum_armor_vector (out @ [chosen])) = fadd current_cost (cost chosen)"
        using "1.prems" by (simp add: sum_armor_vector_snoc)
      from "1.IH"(1) [OF False pos_def chosen_def True this True]
      show ?thesis
        using False True by (subst greedy_loop.simps) (simp add: Let_def pos_def chosen_def)
    next
      case no: False
      from "1.IH"(2) [OF False pos_def chosen_def no "1.prems"]
      show ?thesis
        using False no by (subst greedy_loop.simps) (simp add: Let_def pos_def chosen_def)
    qed
  qed
qed

lemma greedy_feasible:
  "fle (dbl 0) total_cost \<Longrightarrow>
   fle (fst (sum_armor_vector (greedy_max_defense armors total_cost))) total_cost"
  unfolding greedy_max_defense_def
  by (rule greedy_loop_cost) simp_all

lemma search_loop_best_set:
  "search_loop armors b n i pn (bd, bs) = Inr (bd', bs') \<Longrightarrow>
   bs = [] \<or> (\<exists>c d. subset_totals armors bs 0 n (dbl 0, dbl 0) = Inr (c, d) \<and> fle c b) \<Longrightarrow>
   bs' = [] \<or> (\<exists>c d. subset_totals armors bs' 0 n (dbl 0, dbl 0) = Inr (c, d) \<and> fle c b)"
proof (induction armors b n i pn "(bd, bs)" arbitrary: bd bs rule: search_loop.induct)
  case (1 armors total_cost n i pn best_defense best_set)
  show ?case
  proof (cases "i < pn")
    case False
    then show ?thesis using "1.prems" by (simp add: search_loop.simps)
  next
    case True
    define s where "s = get_binary i (int n)"
    from True "1.prems"(1) obtain c d where
      cd: "subset_totals armors s 0 n (dbl 0, dbl 0) = Inr (c, d)"
      by (subst (asm) search_loop.simps) (auto simp: Let_def s_def split: sum.splits)
    show ?thesis
    proof (cases "fle c total_cost \<and> fgt d best_defense")
      case yes: True
      then have run: "search_loop armors total_cost n (i + 1) pn (d, s) = Inr (bd', bs')"
        using True "1.prems"(1) cd
        by (subst (asm) search_loop.simps) (simp add: Let_def s_def [symmetric])
      show ?thesis
        by (rule "1.hyps"(1) [OF True s_def cd refl yes run]) (use cd yes in auto)
    next
      case no: False
      then have run: "search_loop armors total_cost n (i + 1) pn (best_defense, best_set)
          = Inr (bd', bs')"
        using True "1.prems"(1) cd
        by (subst (asm) search_loop.simps) (auto simp: Let_def s_def [symmetric] split: if_splits)
      show ?thesis
        by (rule "1.hyps"(2) [OF True s_def cd refl no run]) (rule "1.prems"(2))
    qed
  qed
qed

text \<open>
  The total cost \<open>sum_armor_vector\<close> computes for the vector the exhaustive optimizer returns
  is the \<open>current_cost\<close> the search loop compared with the budget.
\<close>

lemma exhaustive_feasible:
  assumes "fle (dbl 0) total_cost" "exhaustive_max_defense armors total_cost = Inr out"
  shows "fle (fst (sum_armor_vector out)) total_cost"
proof -
  define n where "n = length armors"
  from assms(2) obtain bd bs where
    sl: "search_loop armors total_cost n 0 (power_set_size 0 n 1) (dbl (- 1), []) = Inr (bd, bs)"
    and co: "create_output armors bs 0 n [] = Inr out"
    by (auto simp: exhaustive_max_defense_def Let_def n_def split: if_splits sum.splits)
  from co have out: "out = map (nth armors) (chosen_indices bs 0 n)"
    and ok: "\<not> (0 < n \<and> Suc (length bs) < n)"
    by (simp_all add: create_output_eq split: if_splits)
  from search_loop_best_set [OF sl]
  consider "bs = []"
    | c d where "subset_totals armors bs 0 n (dbl 0, dbl 0) = Inr (c, d)" "fle c total_cost"
    by auto
  then show ?thesis
  proof cases
    case 1
    then show ?thesis using assms(1) out
      by (simp add: chosen_indices_def)
  next
    case 2
    then show ?thesis using out ok
      by (simp add: subset_totals_sum split: if_splits)
  qed
qed

section \<open>The scan of the greedy loop finds the first maximal ratio\<close>








lemma scenario_reference:
  "greedy_reference scenario (dbl 50) = Some [scenario ! 0, scenario ! 1]"
  by code_simp

section \<open>Distinct bitmasks designate distinct subsets\<close>

lemma decode_subset_eq:
  assumes "0 \<le> i" "i < 2 ^ n" "n \<le> 31"
  shows "decode_subset n i = {j. j < n \<and> bit i (n - 1 - j)}"
proof -
  have "(2::int) ^ n \<le> 2 ^ 31" using assms(3) by (intro power_increasing) simp_all
  then have "i < 2 ^ 31" using assms(2) by linarith
  then show ?thesis
    using assms by (auto simp: decode_subset_def to_int_id chosen_indices_get_binary)
qed

lemma decode_subset_inj:
  assumes "n \<le> 31"
  shows "inj_on (decode_subset n) {0..<2 ^ n}"
proof (rule inj_onI)
  fix x y :: int
  assume x: "x \<in> {0..<2 ^ n}" and y: "y \<in> {0..<2 ^ n}"
    and eq: "decode_subset n x = decode_subset n y"
  have bits: "bit x k = bit y k" if "k < n" for k
  proof -
    have "n - 1 - k < n" and "n - 1 - (n - 1 - k) = k" using that by simp_all
    moreover have "(n - 1 - k \<in> decode_subset n x) = (n - 1 - k \<in> decode_subset n y)"
      using eq by simp
    ultimately show ?thesis
      using x y assms by (simp add: decode_subset_eq)
  qed
  have "take_bit n x = take_bit n y"
    by (rule bit_eqI) (auto simp: bit_take_bit_iff bits)
  moreover have "take_bit n x = x" "take_bit n y = y"
    using x y by (simp_all add: take_bit_int_eq_self)
  ultimately show "x = y" by simp
qed

lemma decode_subset_image:
  assumes n: "n \<le> 31"
  shows "decode_subset n ` {0..<2 ^ n} = Pow {..<n}"
proof -
  have sub: "decode_subset n ` {0..<2 ^ n} \<subseteq> Pow {..<n}"
    by (auto simp: decode_subset_def chosen_indices_def)
  have "card (decode_subset n ` {0..<2 ^ n}) = card {0..<(2::int) ^ n}"
    by (rule card_image [OF decode_subset_inj [OF n]])
  also have "\<dots> = 2 ^ n" by simp
  also have "\<dots> = card (Pow {..<n})" by (simp add: card_Pow)
  finally show ?thesis
    using sub by (intro card_subset_eq) simp_all
qed

section \<open>Up to thirty items: the search records the first feasible maximum\<close>

lemma length_get_binary: "0 \<le> i \<Longrightarrow> i < 2 ^ n \<Longrightarrow> length (get_binary i (int n)) = n"
  by (simp add: get_binary_eq)

lemma subset_totals_mask:
  assumes "0 \<le> i" "i < 2 ^ length armors"
  shows "subset_totals armors (get_binary i (int (length armors))) 0 (length armors)
      (dbl 0, dbl 0)
    = Inr (mask_cost armors i, mask_defense armors i)"
  using length_get_binary [OF assms]
  by (simp add: subset_totals_sum mask_cost_def mask_defense_def mask_items_def)

lemma create_output_mask:
  assumes "0 \<le> i" "i < 2 ^ length armors"
  shows "create_output armors (get_binary i (int (length armors))) 0 (length armors) []
    = Inr (mask_items armors i)"
  using length_get_binary [OF assms]
  by (simp add: create_output_eq mask_items_def)

lemma best_so_far_step:
  assumes inv: "best_so_far armors b t (bd, bs)" and t: "0 \<le> t"
  shows "best_so_far armors b (t + 1)
    (if fle (mask_cost armors t) b \<and> fgt (mask_defense armors t) bd
     then (mask_defense armors t, get_binary t (int (length armors))) else (bd, bs))"
proof -
  have split: "j < t + 1 \<longleftrightarrow> j < t \<or> j = t" for j by linarith
  from inv consider
    (none) "bd = dbl (- 1)" "bs = []"
      "\<forall>j. 0 \<le> j \<and> j < t \<and> fle (mask_cost armors j) b
          \<longrightarrow> \<not> fgt (mask_defense armors j) (dbl (- 1))"
  | (some) k where "0 \<le> k" "k < t" "bd = mask_defense armors k"
      "bs = get_binary k (int (length armors))" "fle (mask_cost armors k) b"
      "fgt (mask_defense armors k) (dbl (- 1))"
      "\<forall>j. 0 \<le> j \<and> j < t \<and> fle (mask_cost armors j) b
          \<longrightarrow> \<not> fgt (mask_defense armors j) (mask_defense armors k)"
      "\<forall>j. 0 \<le> j \<and> j < k \<and> fle (mask_cost armors j) b
          \<longrightarrow> \<not> fle (mask_defense armors k) (mask_defense armors j)"
    unfolding best_so_far_def by auto
  then show ?thesis
  proof cases
    case none
    show ?thesis
    proof (cases "fle (mask_cost armors t) b \<and> fgt (mask_defense armors t) bd")
      case True
      have below: "\<not> fgt (mask_defense armors j) (mask_defense armors t)"
        and before: "\<not> fle (mask_defense armors t) (mask_defense armors j)"
        if "0 \<le> j" "j < t" "fle (mask_cost armors j) b" for j
        using none(1,3) True that by (blast dest: fgt_trans, blast dest: fle_fgt_trans)
      show ?thesis
        using True none(1) t below before unfolding best_so_far_def split
        by (intro disjI2 exI [of _ t]) auto
    next
      case False
      then show ?thesis
        using none unfolding best_so_far_def split by auto
    qed
  next
    case some
    show ?thesis
    proof (cases "fle (mask_cost armors t) b \<and> fgt (mask_defense armors t) bd")
      case True
      have below: "\<not> fgt (mask_defense armors j) (mask_defense armors t)"
        and before: "\<not> fle (mask_defense armors t) (mask_defense armors j)"
        if "0 \<le> j" "j < t" "fle (mask_cost armors j) b" for j
        using some(3,7) True that by (blast dest: fgt_trans, blast dest: fle_fgt_trans)
      have "fgt (mask_defense armors t) (dbl (- 1))"
        using some(3,6) True by (blast intro: fgt_trans)
      then show ?thesis
        using True t below before unfolding best_so_far_def split
        by (intro disjI2 exI [of _ t]) auto
    next
      case False
      have "k < t + 1" using some by simp
      moreover have "\<forall>j. 0 \<le> j \<and> j < t + 1 \<and> fle (mask_cost armors j) b
          \<longrightarrow> \<not> fgt (mask_defense armors j) (mask_defense armors k)"
        using some False unfolding split by auto
      ultimately show ?thesis
        using False some unfolding best_so_far_def
        by (intro disjI2 exI [of _ k]) auto
    qed
  qed
qed

lemma search_loop_best:
  "n = length armors \<Longrightarrow> 0 \<le> i \<Longrightarrow> i \<le> pn \<Longrightarrow> pn \<le> 2 ^ n \<Longrightarrow>
   best_so_far armors b i (bd, bs) \<Longrightarrow>
   \<exists>st. search_loop armors b n i pn (bd, bs) = Inr st \<and> best_so_far armors b pn st"
proof (induction armors b n i pn "(bd, bs)" arbitrary: bd bs rule: search_loop.induct)
  case (1 armors total_cost n i pn best_defense best_set)
  show ?case
  proof (cases "i < pn")
    case False
    then have "i = pn" using "1.prems" by simp
    then show ?thesis using "1.prems" by (simp add: search_loop.simps)
  next
    case True
    define s where "s = get_binary i (int n)"
    have i: "0 \<le> i" "i < 2 ^ length armors" using True "1.prems" by simp_all
    have tot: "subset_totals armors s 0 n (dbl 0, dbl 0)
        = Inr (mask_cost armors i, mask_defense armors i)"
      unfolding s_def \<open>n = length armors\<close> by (rule subset_totals_mask [OF i])
    have next_inv: "best_so_far armors total_cost (i + 1)
      (if fle (mask_cost armors i) total_cost \<and> fgt (mask_defense armors i) best_defense
       then (mask_defense armors i, s) else (best_defense, best_set))"
      unfolding s_def \<open>n = length armors\<close>
      by (rule best_so_far_step [OF "1.prems"(5) i(1)])
    have bounds: "0 \<le> i + 1" "i + 1 \<le> pn" using True i by simp_all
    show ?thesis
    proof (cases "fle (mask_cost armors i) total_cost
        \<and> fgt (mask_defense armors i) best_defense")
      case yes: True
      have "\<exists>st. search_loop armors total_cost n (i + 1) pn (mask_defense armors i, s) = Inr st
          \<and> best_so_far armors total_cost pn st"
        using "1.hyps"(1) [OF True s_def tot refl yes "1.prems"(1) bounds "1.prems"(4)]
          next_inv yes by simp
      then show ?thesis
        using True yes tot
        by (subst search_loop.simps) (simp add: Let_def s_def [symmetric])
    next
      case no: False
      have "\<exists>st. search_loop armors total_cost n (i + 1) pn (best_defense, best_set) = Inr st
          \<and> best_so_far armors total_cost pn st"
        using "1.hyps"(2) [OF True s_def tot refl no "1.prems"(1) bounds "1.prems"(4)]
          next_inv no by simp
      then show ?thesis
        using True no tot
        by (subst search_loop.simps) (auto simp: Let_def s_def [symmetric])
    qed
  qed
qed

lemma mask_items_0: "mask_items armors 0 = []"
  by (simp add: mask_items_def chosen_indices_get_binary)

lemma zero_above_minus_one: "fgt (dbl 0) (dbl (- 1))"
  by (simp add: dbl_0 dbl_minus_1 fgt_def flt_def rank_def fval_def)

text \<open>
  For at most 30 items and a budget \<open>\<ge> 0\<close> the exhaustive optimizer returns the items of a
  bitmask \<open>k\<close> that is feasible, whose total defense no feasible bitmask exceeds and no
  lower feasible bitmask reaches; totals are those the program computes.
\<close>

lemma exhaustive_small:
  assumes n: "length armors \<le> 30" and b: "fle (dbl 0) b"
  shows "\<exists>k. 0 \<le> k \<and> k < 2 ^ length armors
    \<and> exhaustive_max_defense armors b = Inr (mask_items armors k)
    \<and> fle (mask_cost armors k) b
    \<and> (\<forall>j. 0 \<le> j \<and> j < 2 ^ length armors \<and> fle (mask_cost armors j) b
           \<longrightarrow> \<not> fgt (mask_defense armors j) (mask_defense armors k))
    \<and> (\<forall>j. 0 \<le> j \<and> j < k \<and> fle (mask_cost armors j) b
           \<longrightarrow> \<not> fle (mask_defense armors k) (mask_defense armors j))"
proof -
  define n where "n = length armors"
  have pn: "power_set_size 0 n 1 = 2 ^ n"
    using assms(1) by (simp add: power_set_size_small n_def)
  have "best_so_far armors b 0 (dbl (- 1), [])"
    by (auto simp: best_so_far_def)
  from search_loop_best [where i = 0 and pn = "2 ^ n", OF n_def _ _ _ this]
  obtain st where st: "search_loop armors b n 0 (2 ^ n) (dbl (- 1), []) = Inr st"
    and inv: "best_so_far armors b (2 ^ n) st"
    by auto
  have zero: "fle (mask_cost armors 0) b" "fgt (mask_defense armors 0) (dbl (- 1))"
    using b by (simp_all add: mask_cost_def mask_defense_def mask_items_0 zero_above_minus_one)
  have "\<not> (\<forall>j. 0 \<le> j \<and> j < 2 ^ n \<and> fle (mask_cost armors j) b
      \<longrightarrow> \<not> fgt (mask_defense armors j) (dbl (- 1)))"
    using zero by (intro notI) (drule spec [of _ 0], simp)
  with inv obtain k where k: "0 \<le> k" "k < 2 ^ n"
    "st = (mask_defense armors k, get_binary k (int (length armors)))"
    "fle (mask_cost armors k) b"
    "\<forall>j. 0 \<le> j \<and> j < 2 ^ n \<and> fle (mask_cost armors j) b
          \<longrightarrow> \<not> fgt (mask_defense armors j) (mask_defense armors k)"
    "\<forall>j. 0 \<le> j \<and> j < k \<and> fle (mask_cost armors j) b
          \<longrightarrow> \<not> fle (mask_defense armors k) (mask_defense armors j)"
    unfolding best_so_far_def by blast
  have "exhaustive_max_defense armors b = Inr (mask_items armors k)"
    using n st k(1,2,3) create_output_mask [of k armors]
    by (simp add: exhaustive_max_defense_def Let_def n_def [symmetric] pn)
  then show ?thesis using k unfolding n_def by blast
qed

lemma nths_filter_upt:
  "nths xs I = map (nth xs) (filter (\<lambda>j. j \<in> I) [0..<length xs])"
proof (induction xs rule: rev_induct)
  case Nil
  then show ?case by simp
next
  case (snoc x xs)
  have "map (nth (xs @ [x])) (filter (\<lambda>j. j \<in> I) [0..<length xs])
      = map (nth xs) (filter (\<lambda>j. j \<in> I) [0..<length xs])"
    by (rule map_cong) (auto simp: nth_append)
  then show ?case
    using snoc by (simp add: nths_append)
qed

lemma mask_items_nths:
  assumes "0 \<le> i" "i < 2 ^ length armors" "length armors \<le> 31"
  shows "mask_items armors i = nths armors (decode_subset (length armors) i)"
proof -
  have "filter (\<lambda>j. j \<in> decode_subset (length armors) i) [0..<length armors]
      = filter (\<lambda>j. bit i (length armors - 1 - j)) [0..<length armors]"
    by (rule filter_cong) (use assms in \<open>auto simp: decode_subset_eq\<close>)
  then show ?thesis
    using assms by (simp add: mask_items_def chosen_indices_get_binary nths_filter_upt)
qed

lemma every_subset_has_mask:
  assumes "length armors \<le> 31"
  shows "\<exists>j. 0 \<le> j \<and> j < 2 ^ length armors \<and> mask_items armors j = nths armors I"
proof -
  define n where "n = length armors"
  have "decode_subset n ` {0..<2 ^ n} = Pow {..<n}"
    using assms by (simp add: decode_subset_image n_def)
  moreover have "I \<inter> {..<n} \<in> Pow {..<n}" by simp
  ultimately obtain j where j: "j \<in> {0..<2 ^ n}" "decode_subset n j = I \<inter> {..<n}"
    by (metis (no_types, lifting) imageE)
  have "nths armors (I \<inter> {..<n}) = nths armors I"
    unfolding nths_filter_upt n_def
    by (intro arg_cong [where f = "map (nth armors)"] filter_cong) auto
  then have "mask_items armors j = nths armors I"
    using j assms mask_items_nths [of j armors] by (simp add: n_def)
  then show ?thesis using j unfolding n_def by auto
qed

text \<open>
  Hence no selection \<open>nths armors I\<close> of an index set \<open>I\<close> that the program finds feasible has
  a total defense, as the program computes it, above that of the result.
\<close>

lemma exhaustive_optimal_small:
  assumes "length armors \<le> 30" "fle (dbl 0) b"
  shows "\<exists>out. exhaustive_max_defense armors b = Inr out
    \<and> fle (fst (sum_armor_vector out)) b
    \<and> (\<forall>I. fle (fst (sum_armor_vector (nths armors I))) b
           \<longrightarrow> \<not> fgt (snd (sum_armor_vector (nths armors I))) (snd (sum_armor_vector out)))"
proof -
  from exhaustive_small [OF assms] obtain k where
    k: "exhaustive_max_defense armors b = Inr (mask_items armors k)"
      "fle (mask_cost armors k) b"
      "\<forall>j. 0 \<le> j \<and> j < 2 ^ length armors \<and> fle (mask_cost armors j) b
           \<longrightarrow> \<not> fgt (mask_defense armors j) (mask_defense armors k)"
    by blast
  have "\<not> fgt (snd (sum_armor_vector (nths armors I)))
      (snd (sum_armor_vector (mask_items armors k)))"
    if "fle (fst (sum_armor_vector (nths armors I))) b" for I
  proof -
    from every_subset_has_mask [of armors I] assms(1)
    obtain j where "0 \<le> j" "j < 2 ^ length armors" "mask_items armors j = nths armors I"
      by auto
    then show ?thesis
      using k(3) that by (auto simp: mask_cost_def mask_defense_def)
  qed
  then show ?thesis using k(1,2) by (auto simp: mask_cost_def)
qed

lemma visited_masks_eq: "0 \<le> i \<Longrightarrow> visited_masks i pn = map int [nat i..<nat pn]"
proof (induction i pn rule: visited_masks.induct)
  case (1 i pn)
  show ?case
  proof (cases "i < pn")
    case True
    then have "[nat i..<nat pn] = nat i # [nat (i + 1)..<nat pn]"
      using "1.prems" by (simp add: upt_conv_Cons nat_add_distrib)
    then show ?thesis
      using True "1.IH" [OF True] "1.prems" by (subst visited_masks.simps) simp
  next
    case False
    then show ?thesis using "1.prems" by (subst visited_masks.simps) simp
  qed
qed

text \<open>For at most 30 items the loop visits \<open>0, 1, ..., 2^n - 1\<close>, each once.\<close>

lemma enumeration_small: "n \<le> 30 \<Longrightarrow> enumeration n = map int [0..<2 ^ n]"
  by (simp add: enumeration_def power_set_size_small visited_masks_eq nat_power_eq)

subsection \<open>The empty item sequence\<close>

lemma greedy_empty_input: "greedy_max_defense [] b = []"
  by (simp add: greedy_max_defense_def greedy_loop.simps)

lemma exhaustive_empty_input: "exhaustive_max_defense [] b = Inr []"
proof -
  have g: "get_binary 0 0 = []" using get_binary_eq [of 0 0] by simp
  have p: "power_set_size 0 0 1 = 1" by (simp add: power_set_size.simps)
  have "\<exists>st. search_loop [] b 0 0 1 (dbl (- 1), []) = Inr st"
    by (simp add: search_loop.simps [of _ _ _ 0] search_loop_skip g subset_totals_eq Let_def
        chosen_indices_def)
  then obtain bd bs where "search_loop [] b 0 0 1 (dbl (- 1), []) = Inr (bd, bs)" by force
  then show ?thesis
    by (simp add: exhaustive_max_defense_def p create_output_eq chosen_indices_def)
qed

section \<open>The subset a bitmask designates\<close>

text \<open>
  C7, as stated, fails: with two items, the integer 1 has bit 0 set, yet \<open>get_binary\<close> writes
  \<open>"01"\<close>, highest bit first, and the loops read character \<open>j\<close> for item \<open>j\<close>: item 0 is
  not in the subset (item 1 is).
\<close>

theorem decode_subset_lsb_counterexample:
  "get_binary (to_int 1) 2 = ''01'' \<and> \<not> ((0 \<in> decode_subset 2 1) = bit (1::int) 0)"
proof -
  have g: "get_binary 1 2 = ''01''" by code_simp
  have t: "to_int 1 = 1" by (simp add: to_int_def)
  show ?thesis
    by (simp add: decode_subset_def t g chosen_indices_def upt_rec)
qed

text \<open>
  C7, amended: for \<open>n < 64\<close> and an integer \<open>i\<close> in \<open>[0, 2^n)\<close> that an \<open>int\<close> holds
  (\<open>i < 2^31\<close>), the subset decoded from \<open>i\<close> contains item \<open>j < n\<close> if and only if bit
  \<open>n - 1 - j\<close> of \<open>i\<close> is set: the highest of the \<open>n\<close> bits stands for item 0, the lowest
  for item \<open>n - 1\<close>.
\<close>

theorem decode_subset_msb:
  "n < 64 \<Longrightarrow> 0 \<le> i \<Longrightarrow> i < 2 ^ n \<Longrightarrow> i < 2 ^ 31 \<Longrightarrow> j < n \<Longrightarrow>
   (j \<in> decode_subset n i) = bit i (n - 1 - j)"
  by (simp add: decode_subset_def to_int_id chosen_indices_get_binary)

text \<open>Witness for C7: three items and the integer 6 (binary 110); item 0 is in the subset.\<close>

theorem decode_subset_msb_witness:
  "(3::nat) < 64 \<and> (0::int) \<le> 6 \<and> (6::int) < 2 ^ 3 \<and> (6::int) < 2 ^ 31 \<and> (0::nat) < 3
   \<and> (0 \<in> decode_subset 3 6) = bit (6::int) (3 - 1 - 0) \<and> 0 \<in> decode_subset 3 6"
  using decode_subset_msb [of 3 6 0] by simp

text \<open>
  C9, as stated, fails from \<open>n = 32\<close> on: \<open>2^31\<close> is not a value of the \<open>int\<close> parameter of
  \<open>get_binary\<close>; stored there it is \<open>-2^31\<close>, whose digits are \<open>'0'\<close> and \<open>'/'\<close>, and it
  designates the empty subset, as 0 does.
\<close>

theorem decode_subset_collision_counterexample:
  "(0::int) \<in> {0..<2 ^ 32} \<and> (2 ^ 31 :: int) \<in> {0..<2 ^ 32} \<and>
   decode_subset 32 (2 ^ 31) = {} \<and> decode_subset 32 0 = {} \<and>
   \<not> inj_on (decode_subset 32) {0..<2 ^ 32}"
proof -
  have a: "decode_subset 32 (2 ^ 31) = {}" by code_simp
  have b: "decode_subset 32 0 = {}" by code_simp
  have "\<not> inj_on (decode_subset 32) {0..<2 ^ 32}"
  proof
    assume "inj_on (decode_subset 32) {0..<2 ^ 32}"
    from inj_onD [OF this, of "2 ^ 31" 0] a b show False by simp
  qed
  then show ?thesis using a b by simp
qed

text \<open>
  C9, amended: for every \<open>n\<close> with \<open>0 \<le> n \<le> 31\<close>, decoding is a bijection from the integers
  of \<open>[0, 2^n)\<close> onto the power set of \<open>{0, ..., n - 1}\<close>.
\<close>

theorem decode_subset_bijection:
  "n \<le> 31 \<Longrightarrow> bij_betw (decode_subset n) {0..<2 ^ n} (Pow {..<n})"
  by (simp add: bij_betw_def decode_subset_inj decode_subset_image)

text \<open>Witness for C9: three items, eight bitmasks.\<close>

theorem decode_subset_bijection_witness:
  "(3::nat) \<le> 31 \<and> bij_betw (decode_subset 3) {0..<2 ^ 3} (Pow {..<3})"
  using decode_subset_bijection [of 3] by simp

section \<open>Rounding and the order of the additions\<close>

text \<open>
  The greedy optimizer adds the costs in the order of acceptance, the exhaustive optimizer
  in the order of the input. For \<open>order_items\<close> and the budget \<open>2^53\<close> the greedy optimizer
  accepts the third item and then the other two (\<open>2^53 + 1 + 1\<close> is \<open>2^53\<close>), while the
  exhaustive optimizer finds the full set over the budget (\<open>1 + 1 + 2^53\<close> is \<open>2^53 + 2\<close>)
  and returns two items, of smaller total defense.
\<close>

lemma order_of_additions:
  "greedy_max_defense order_items (dbl 9007199254740992)
     = [order_items ! 2, order_items ! 0, order_items ! 1] \<and>
   exhaustive_max_defense order_items (dbl 9007199254740992)
     = Inr [order_items ! 1, order_items ! 2] \<and>
   snd (sum_armor_vector [order_items ! 2, order_items ! 0, order_items ! 1])
     = dbl 54043195528445968 \<and>
   snd (sum_armor_vector [order_items ! 1, order_items ! 2]) = dbl 54043195528445960 \<and>
   fst (sum_armor_vector order_items) = dbl 9007199254740994"
  by code_simp

section \<open>Order of the items in the exhaustive result\<close>

text \<open>
  C10: for fewer than 64 items and a budget \<open>\<ge> 0\<close>, every vector \<open>exhaustive_max_defense\<close>
  returns lists the items of strictly ascending indices of the input: the input's order is
  kept and no index occurs twice. For at most 30 items it does return one.
\<close>

theorem exhaustive_output_ascending:
  "length armors < 64 \<Longrightarrow> fle (dbl 0) total_cost \<Longrightarrow>
   (length armors \<le> 30 \<longrightarrow> (\<exists>out. exhaustive_max_defense armors total_cost = Inr out)) \<and>
   (\<forall>out. exhaustive_max_defense armors total_cost = Inr out \<longrightarrow>
      (\<exists>is. sorted_wrt (<) is \<and> set is \<subseteq> {..<length armors} \<and> out = map (nth armors) is))"
proof (intro conjI impI allI)
  assume b: "fle (dbl 0) total_cost"
  show "\<exists>out. exhaustive_max_defense armors total_cost = Inr out" if "length armors \<le> 30"
    using exhaustive_small [OF that b] by blast
  fix out
  assume "exhaustive_max_defense armors total_cost = Inr out"
  then obtain bs where "create_output armors bs 0 (length armors) [] = Inr out"
    by (auto simp: exhaustive_max_defense_def Let_def split: if_splits sum.splits)
  then have out: "out = map (nth armors) (chosen_indices bs 0 (length armors))"
    by (simp add: create_output_eq split: if_splits)
  have "sorted_wrt (<) (chosen_indices bs 0 (length armors))"
    unfolding chosen_indices_def by (intro sorted_wrt_filter) simp
  moreover have "set (chosen_indices bs 0 (length armors)) \<subseteq> {..<length armors}"
    by (auto simp: chosen_indices_def)
  ultimately show "\<exists>is. sorted_wrt (<) is \<and> set is \<subseteq> {..<length armors} \<and> out = map (nth armors) is"
    using out by blast
qed

text \<open>Witness for C10: the scenario with budget 50; the result is items 1 and 2, in this order.\<close>

theorem exhaustive_output_ascending_witness:
  "length scenario < 64 \<and> fle (dbl 0) (dbl 50) \<and> length scenario \<le> 30 \<and>
   exhaustive_max_defense scenario (dbl 50) = Inr [scenario ! 1, scenario ! 2] \<and>
   (\<exists>is. sorted_wrt (<) is \<and> set is \<subseteq> {..<length scenario}
      \<and> [scenario ! 1, scenario ! 2] = map (nth scenario) is)"
proof -
  have l: "length scenario < 64" and l': "length scenario \<le> 30" by (simp_all add: scenario_def)
  have b: "fle (dbl 0) (dbl 50)" by code_simp
  show ?thesis
    using exhaustive_output_ascending [OF l b] l l' b scenario_exhaustive
    by simp
qed

section \<open>The greedy optimizer against its reference process\<close>



section \<open>The feasibility invariant\<close>

text \<open>
  C2, as stated, fails for a negative budget: with no items and budget \<open>-1\<close> both optimizers
  return the empty vector, whose total cost 0 exceeds the budget. It also fails for the sum
  of the costs as real numbers: for the items of costs \<open>2^53\<close> and 1 and the budget \<open>2^53\<close>
  both optimizers return both items, because \<open>1 + 2^53\<close> rounds to \<open>2^53\<close>; the costs add
  up to \<open>2^53 + 1\<close>.
\<close>

theorem optimizers_infeasible_counterexample:
  "\<not> fle (fst (sum_armor_vector (greedy_max_defense [] (dbl (- 1))))) (dbl (- 1)) \<and>
   exhaustive_max_defense [] (dbl (- 1)) = Inr [] \<and>
   \<not> fle (fst (sum_armor_vector [])) (dbl (- 1)) \<and>
   greedy_max_defense [big_item, small_item] (dbl 9007199254740992) = [small_item, big_item] \<and>
   exact_cost [small_item, big_item] = 9007199254740993 \<and>
   fval (dbl 9007199254740992) = 9007199254740992 \<and>
   fst (sum_armor_vector [small_item, big_item]) = dbl 9007199254740992 \<and>
   exhaustive_max_defense [big_item, small_item] (dbl 9007199254740992)
     = Inr [big_item, small_item]"
  by code_simp

text \<open>
  C2, amended: for every item sequence and every budget \<open>\<ge> 0\<close>, the total cost of the vector
  \<open>greedy_max_defense\<close> returns, as \<open>sum_armor_vector\<close> computes it (the costs added as
  \<open>double\<close>s in the order of the vector), is at most the budget, and so is the total cost of
  every vector \<open>exhaustive_max_defense\<close> returns; for at most 30 items it does return one.
\<close>

theorem optimizers_feasible:
  "fle (dbl 0) total_cost \<Longrightarrow>
   fle (fst (sum_armor_vector (greedy_max_defense armors total_cost))) total_cost \<and>
   (length armors \<le> 30 \<longrightarrow> (\<exists>out. exhaustive_max_defense armors total_cost = Inr out)) \<and>
   (\<forall>out. exhaustive_max_defense armors total_cost = Inr out \<longrightarrow>
      fle (fst (sum_armor_vector out)) total_cost)"
proof (intro conjI impI allI)
  assume b: "fle (dbl 0) total_cost"
  show "fle (fst (sum_armor_vector (greedy_max_defense armors total_cost))) total_cost"
    by (rule greedy_feasible [OF b])
  show "\<exists>out. exhaustive_max_defense armors total_cost = Inr out" if "length armors \<le> 30"
    using exhaustive_small [OF that b] by blast
  show "fle (fst (sum_armor_vector out)) total_cost"
    if "exhaustive_max_defense armors total_cost = Inr out" for out
    by (rule exhaustive_feasible [OF b that])
qed

text \<open>
  Witness for C2: the scenario with budget 50. The greedy result is items 0 and 1 (cost 30),
  the exhaustive result items 1 and 2 (cost 50).
\<close>

theorem optimizers_feasible_witness:
  "fle (dbl 0) (dbl 50) \<and> length scenario \<le> 30 \<and>
   greedy_max_defense scenario (dbl 50) = [scenario ! 0, scenario ! 1] \<and>
   fle (fst (sum_armor_vector (greedy_max_defense scenario (dbl 50)))) (dbl 50) \<and>
   exhaustive_max_defense scenario (dbl 50) = Inr [scenario ! 1, scenario ! 2] \<and>
   fle (fst (sum_armor_vector [scenario ! 1, scenario ! 2])) (dbl 50)"
proof -
  have b: "fle (dbl 0) (dbl 50)" by code_simp
  have l: "length scenario \<le> 30" by (simp add: scenario_def)
  show ?thesis
    using optimizers_feasible [OF b, of scenario] scenario_greedy scenario_exhaustive l b
    by simp
qed

section \<open>Thirty-one items and more: the 32-bit power-set size\<close>

text \<open>
  C1 at a failing input: 31 items of cost 1 and defense 1, budget 1. \<open>pn\<close> wraps to a negative
  number, no bitmask is visited, \<open>best_set\<close> stays empty and the output loop reads beyond its
  end: no vector is returned, although a single item is feasible with total defense 1.
\<close>

theorem exhaustive_31_items_no_optimum:
  "length (replicate 31 unit_item) < 64 \<and> fgt (cost unit_item) (dbl 0) \<and>
   exhaustive_max_defense (replicate 31 unit_item) (dbl 1) = Inl Out_of_range \<and>
   sum_armor_vector [unit_item] = (dbl 1, dbl 1)"
proof -
  have "exhaustive_max_defense (replicate 31 unit_item) (dbl 1) = Inl Out_of_range"
    by (rule exhaustive_overflow) simp_all
  moreover have "fgt (cost unit_item) (dbl 0) \<and> sum_armor_vector [unit_item] = (dbl 1, dbl 1)"
    by code_simp
  ultimately show ?thesis by simp
qed

text \<open>
  C3 at a failing input: the same 31 items, budget 2. The greedy optimizer returns two items
  (total defense 2); the exhaustive optimizer returns nothing.
\<close>

theorem exhaustive_31_items_below_greedy:
  "exhaustive_max_defense (replicate 31 unit_item) (dbl 2) = Inl Out_of_range \<and>
   greedy_max_defense (replicate 31 unit_item) (dbl 2) = [unit_item, unit_item] \<and>
   snd (sum_armor_vector [unit_item, unit_item]) = dbl 2"
proof -
  have "exhaustive_max_defense (replicate 31 unit_item) (dbl 2) = Inl Out_of_range"
    by (rule exhaustive_overflow) simp_all
  moreover have "greedy_max_defense (replicate 31 unit_item) (dbl 2) = [unit_item, unit_item]"
    by code_simp
  moreover have "snd (sum_armor_vector [unit_item, unit_item]) = dbl 2"
    by code_simp
  ultimately show ?thesis by simp
qed

text \<open>
  C6 at a failing input: for 31 items \<open>pn\<close> is \<open>-2^31\<close> and the loop visits no bitmask, not
  \<open>2^31\<close> of them.
\<close>

theorem enumeration_31_empty:
  "power_set_size 0 31 1 = - 2147483648 \<and> enumeration 31 = []"
  by code_simp

text \<open>
  C8 at a failing input: 32 items of cost 1 and defense 1, budget 1. The 32 single items
  share the greatest feasible total defense 1; the optimizer returns none of them.
\<close>

theorem exhaustive_32_items_no_first_maximum:
  "exhaustive_max_defense (replicate 32 unit_item) (dbl 1) = Inl Out_of_range \<and>
   sum_armor_vector [unit_item] = (dbl 1, dbl 1)"
proof -
  have "exhaustive_max_defense (replicate 32 unit_item) (dbl 1) = Inl Out_of_range"
    by (rule exhaustive_overflow) simp_all
  moreover have "sum_armor_vector [unit_item] = (dbl 1, dbl 1)"
    by code_simp
  ultimately show ?thesis by simp
qed

section \<open>Degenerate inputs\<close>

text \<open>
  C5 at failing inputs: two items and budget \<open>-1\<close>, where no subset is a candidate, and 31
  items and budget 0, where no bitmask is visited. In both, \<open>best_set\<close> stays empty and the
  output loop reads beyond its end instead of returning the empty vector. The greedy
  optimizer returns the empty vector.
\<close>

theorem exhaustive_negative_budget_reads_past_end:
  "exhaustive_max_defense [unit_item, unit_item] (dbl (- 1)) = Inl Out_of_range \<and>
   exhaustive_max_defense (replicate 31 unit_item) (dbl 0) = Inl Out_of_range \<and>
   greedy_max_defense [unit_item, unit_item] (dbl (- 1)) = []"
proof -
  have "exhaustive_max_defense (replicate 31 unit_item) (dbl 0) = Inl Out_of_range"
    by (rule exhaustive_overflow) simp_all
  moreover have "exhaustive_max_defense [unit_item, unit_item] (dbl (- 1)) = Inl Out_of_range"
    by code_simp
  moreover have "greedy_max_defense [unit_item, unit_item] (dbl (- 1)) = []"
    by code_simp
  ultimately show ?thesis by simp
qed

end
